theory Spec2Isabelle
  imports Main "HOL-Library.Sublist"
begin

section \<open>Data model of the route resolver (src/index.js)\<close>

text \<open>
  A user object \<open>{ name: string, level: number }\<close>. Levels are JavaScript numbers that
  hold integers; they are modelled as unbounded integers.
\<close>

record User =
  name :: string
  level :: int

text \<open>
  A registry entry \<open>{ path: string, parent: string, level: int }\<close>. The parent of a root
  route is \<open>null\<close> or absent, which is \<open>None\<close> here; any string, the empty one included,
  is \<open>Some s\<close>.
\<close>

record RouteDefinition =
  path :: string
  parent :: "string option"
  level :: int

text \<open>An entry of the array that \<open>getAllPaths\<close> returns.\<close>

record ResolvedRoute =
  absolutePath :: string
  access :: int

text \<open>
  The only exception the statements of the module raise: destructuring \<open>undefined\<close> in
  \<open>_getPath\<close> when \<open>_findParent\<close> finds nothing.
\<close>

datatype error = TypeError

text \<open>
  The value bound to \<open>access\<close> in \<open>hasAccess\<close> is a number or \<open>undefined\<close>.
\<close>

datatype jsval = Undefined | Num int

text \<open>
  The value of \<open>paths.find(...) || -1\<close>: the route object found, or the number \<open>-1\<close>.
\<close>

datatype found = Obj ResolvedRoute | NumV int

section \<open>The functions of src/index.js\<close>

text \<open>
  \<open>_accessGranted(access, level) = access > -1 && level >= access\<close>. With
  \<open>access = undefined\<close> the comparison \<open>undefined > -1\<close> converts \<open>undefined\<close> to NaN
  and is false, so the conjunction is false.
\<close>

fun accessGranted :: "jsval \<Rightarrow> int \<Rightarrow> bool" where
  "accessGranted Undefined lvl = False"
| "accessGranted (Num acc) lvl = (acc > -1 \<and> lvl \<ge> acc)"

text \<open>\<open>_createRoute(path, absolutePath) = path !== '/' ? path + absolutePath : absolutePath\<close>\<close>

definition createRoute :: "string \<Rightarrow> string \<Rightarrow> string" where
  "createRoute p absPath = (if p \<noteq> ''/'' then p @ absPath else absPath)"

text \<open>
  \<open>_findParent(registry, currentParent) = registry.find(({ path }) => path === currentParent)\<close>:
  the first entry with that path, \<open>undefined\<close> (here \<open>None\<close>) when there is none.
\<close>

definition findParent :: "RouteDefinition list \<Rightarrow> string \<Rightarrow> RouteDefinition option" where
  "findParent registry currentParent = find (\<lambda>r. path r = currentParent) registry"

text \<open>
  The condition of \<open>while (currentParent)\<close>: JavaScript truthiness of a value that is
  \<open>null\<close>, \<open>undefined\<close> or a string. Only a non-empty string is truthy.
\<close>

fun truthy :: "string option \<Rightarrow> bool" where
  "truthy None = False"
| "truthy (Some s) = (s \<noteq> [])"

text \<open>
  The loop of \<open>_getPath\<close>, on the loop variables \<open>absolutePath\<close>, \<open>access\<close> and
  \<open>currentParent\<close>. The result is \<open>Some (Inr r)\<close> when the function returns \<open>r\<close> and
  \<open>Some (Inl TypeError)\<close> when destructuring the result of \<open>_findParent\<close> raises. It is
  \<open>None\<close> when the walk comes to neither end, which is when the parent references lead
  round a cycle. An engine runs such a walk forever only if every path on the cycle is
  \<open>/\<close>; otherwise \<open>absolutePath\<close> grows at every turn and the call ends with
  \<open>RangeError: Invalid string length\<close> or with the memory exhausted, at a point that
  depends on the engine. \<open>None\<close> stands for all of these: the call returns no value and
  reports no failed lookup.
\<close>

partial_function (option) getPath_loop ::
  "RouteDefinition list \<Rightarrow> string \<Rightarrow> int \<Rightarrow> string option \<Rightarrow> (error + ResolvedRoute) option"
where
  "getPath_loop registry absPath acc currentParent =
     (if truthy currentParent then
        (case findParent registry (the currentParent) of
           None \<Rightarrow> Some (Inl TypeError)
         | Some p \<Rightarrow>
             getPath_loop registry (createRoute (path p) absPath)
               (max acc (RouteDefinition.level p)) (parent p))
      else Some (Inr \<lparr>absolutePath = absPath, access = acc\<rparr>))"

definition getPath ::
  "string option \<Rightarrow> string \<Rightarrow> int \<Rightarrow> RouteDefinition list \<Rightarrow> (error + ResolvedRoute) option"
where
  "getPath par p lvl registry = getPath_loop registry p lvl par"

text \<open>
  \<open>Array.prototype.map\<close> with a callback that may raise or have no result: the elements
  are visited in order, and the first call that raises or has no result ends the whole
  call in the same way.
\<close>

fun map_js :: "('a \<Rightarrow> (error + 'b) option) \<Rightarrow> 'a list \<Rightarrow> (error + 'b list) option" where
  "map_js f [] = Some (Inr [])"
| "map_js f (x # xs) =
     (case f x of
        None \<Rightarrow> None
      | Some (Inl e) \<Rightarrow> Some (Inl e)
      | Some (Inr y) \<Rightarrow>
          (case map_js f xs of
             None \<Rightarrow> None
           | Some (Inl e) \<Rightarrow> Some (Inl e)
           | Some (Inr ys) \<Rightarrow> Some (Inr (y # ys))))"

definition getAllPaths :: "RouteDefinition list \<Rightarrow> (error + ResolvedRoute list) option" where
  "getAllPaths registry =
     map_js (\<lambda>r. getPath (parent r) (path r) (RouteDefinition.level r) registry) registry"

text \<open>\<open>x || -1\<close> for \<open>x\<close> the result of \<open>find\<close>: an object is truthy, \<open>undefined\<close> is not.\<close>

fun orMinusOne :: "ResolvedRoute option \<Rightarrow> found" where
  "orMinusOne (Some r) = Obj r"
| "orMinusOne None = NumV (-1)"

text \<open>
  The destructuring \<open>{ access } = v\<close>: the property \<open>access\<close> of a route object, and
  \<open>undefined\<close> for a number, which has no such property.
\<close>

fun accessOf :: "found \<Rightarrow> jsval" where
  "accessOf (Obj r) = Num (access r)"
| "accessOf (NumV n) = Undefined"

definition hasAccess :: "User \<Rightarrow> string \<Rightarrow> ResolvedRoute list \<Rightarrow> bool" where
  "hasAccess user p paths =
     accessGranted (accessOf (orMinusOne (find (\<lambda>r. absolutePath r = p) paths)))
       (User.level user)"

definition getUserPaths :: "User \<Rightarrow> ResolvedRoute list \<Rightarrow> ResolvedRoute list" where
  "getUserPaths user paths = filter (\<lambda>r. hasAccess user (absolutePath r) paths) paths"

declare getPath_loop.simps [code]

section \<open>The functions on a store\<close>

text \<open>
  The functions above take the registry as a value. To speak of two calls one after the
  other, of what a call writes and of the identity of what it returns, the objects are
  put in a store: a list of objects, the address of an object being its index. A new
  object goes to the end of the store, so an address in use is never given out again.
\<close>

type_synonym addr = nat

datatype obj = RouteObj RouteDefinition | ResolvedObj ResolvedRoute | ArrayObj "addr list"

type_synonym store = "obj list"

definition alloc :: "store \<Rightarrow> obj \<Rightarrow> addr \<times> store" where
  "alloc h v = (length h, h @ [v])"

definition lookup :: "store \<Rightarrow> addr \<Rightarrow> obj option" where
  "lookup h a = (if a < length h then Some (h ! a) else None)"

definition readRoute :: "store \<Rightarrow> addr \<Rightarrow> RouteDefinition option" where
  "readRoute h a = (case lookup h a of Some (RouteObj r) \<Rightarrow> Some r | _ \<Rightarrow> None)"

definition readResolved :: "store \<Rightarrow> addr \<Rightarrow> ResolvedRoute option" where
  "readResolved h a = (case lookup h a of Some (ResolvedObj r) \<Rightarrow> Some r | _ \<Rightarrow> None)"

definition readArray :: "store \<Rightarrow> addr \<Rightarrow> addr list option" where
  "readArray h a = (case lookup h a of Some (ArrayObj as) \<Rightarrow> Some as | _ \<Rightarrow> None)"

fun allSome :: "'a option list \<Rightarrow> 'a list option" where
  "allSome [] = Some []"
| "allSome (None # xs) = None"
| "allSome (Some x # xs) = (case allSome xs of None \<Rightarrow> None | Some ys \<Rightarrow> Some (x # ys))"

text \<open>
  The registry behind a reference: the array at that address and the route objects its
  elements refer to. \<open>None\<close> when the reference is not to an array of route objects.
\<close>

definition readRegistry :: "store \<Rightarrow> addr \<Rightarrow> RouteDefinition list option" where
  "readRegistry h ra =
     (case readArray h ra of None \<Rightarrow> None | Some as \<Rightarrow> allSome (map (readRoute h) as))"

text \<open>The sequence of resolved routes behind a reference, for comparing results deeply.\<close>

definition readResolvedArray :: "store \<Rightarrow> addr \<Rightarrow> ResolvedRoute list option" where
  "readResolvedArray h a =
     (case readArray h a of None \<Rightarrow> None | Some as \<Rightarrow> allSome (map (readResolved h) as))"

text \<open>
  The loop of \<open>_getPath\<close> on a store: \<open>_findParent\<close> reads the registry from the store at
  every turn, the other statements of the loop assign to the local variables
  \<open>absolutePath\<close>, \<open>access\<close> and \<open>currentParent\<close>, and the \<open>return\<close> creates the object
  \<open>{ absolutePath, access }\<close>. The outcome comes with the store the call leaves. A
  reference that is not to a registry is outside the declared type of the argument; the
  model answers \<open>TypeError\<close> for it.
\<close>

partial_function (option) getPath_loop_st ::
  "store \<Rightarrow> addr \<Rightarrow> string \<Rightarrow> int \<Rightarrow> string option \<Rightarrow> ((error + addr) \<times> store) option"
where
  "getPath_loop_st h ra absPath acc currentParent =
     (if truthy currentParent then
        (case readRegistry h ra of
           None \<Rightarrow> Some (Inl TypeError, h)
         | Some registry \<Rightarrow>
             (case findParent registry (the currentParent) of
                None \<Rightarrow> Some (Inl TypeError, h)
              | Some p \<Rightarrow>
                  getPath_loop_st h ra (createRoute (path p) absPath)
                    (max acc (RouteDefinition.level p)) (parent p)))
      else Some (Inr (fst (alloc h (ResolvedObj \<lparr>absolutePath = absPath, access = acc\<rparr>))),
                 snd (alloc h (ResolvedObj \<lparr>absolutePath = absPath, access = acc\<rparr>))))"

definition getPath_st ::
  "store \<Rightarrow> string option \<Rightarrow> string \<Rightarrow> int \<Rightarrow> addr \<Rightarrow> ((error + addr) \<times> store) option"
where
  "getPath_st h par p lvl ra = getPath_loop_st h ra p lvl par"

declare getPath_loop_st.simps [code]

text \<open>An outcome of the walk on a registry, as the walk on a store \<open>h\<close> gives it.\<close>

fun stored :: "store \<Rightarrow> error + ResolvedRoute \<Rightarrow> (error + addr) \<times> store" where
  "stored h (Inl e) = (Inl e, h)"
| "stored h (Inr r) = (Inr (length h), h @ [ResolvedObj r])"

text \<open>
  The iteration of \<open>registry.map\<close> from index \<open>i\<close> for \<open>k\<close> more elements: each element
  is read from the store as it is at that moment, its \<open>parent\<close>, \<open>path\<close> and \<open>level\<close> are
  passed to \<open>_getPath\<close>, and the reference returned is collected.
\<close>

fun mapFrom_st ::
  "store \<Rightarrow> addr \<Rightarrow> nat \<Rightarrow> nat \<Rightarrow> ((error + addr list) \<times> store) option"
where
  "mapFrom_st h ra i 0 = Some (Inr [], h)"
| "mapFrom_st h ra i (Suc k) =
     (case readRegistry h ra of
        None \<Rightarrow> Some (Inl TypeError, h)
      | Some registry \<Rightarrow>
          if i < length registry then
            (case getPath_st h (parent (registry ! i)) (path (registry ! i))
                    (RouteDefinition.level (registry ! i)) ra of
               None \<Rightarrow> None
             | Some (Inl e, h') \<Rightarrow> Some (Inl e, h')
             | Some (Inr a, h') \<Rightarrow>
                 (case mapFrom_st h' ra (Suc i) k of
                    None \<Rightarrow> None
                  | Some (Inl e, h'') \<Rightarrow> Some (Inl e, h'')
                  | Some (Inr as, h'') \<Rightarrow> Some (Inr (a # as), h'')))
          else Some (Inl TypeError, h))"

text \<open>
  \<open>getAllPaths\<close> on a store: the iteration runs over the length the array has at the
  start, and the references collected are returned in a new array. Where in the store the
  new array lies is not observable; it is put after the objects it refers to.
\<close>

definition getAllPaths_st :: "store \<Rightarrow> addr \<Rightarrow> ((error + addr) \<times> store) option" where
  "getAllPaths_st h ra =
     (case readRegistry h ra of
        None \<Rightarrow> Some (Inl TypeError, h)
      | Some registry \<Rightarrow>
          (case mapFrom_st h ra 0 (length registry) of
             None \<Rightarrow> None
           | Some (Inl e, h') \<Rightarrow> Some (Inl e, h')
           | Some (Inr as, h') \<Rightarrow> Some (Inr (fst (alloc h' (ArrayObj as))),
                                      snd (alloc h' (ArrayObj as)))))"

section \<open>Notions of the specification\<close>

text \<open>
  The ancestor chain of a parent reference, as the specification describes a well-formed
  registry: every non-null parent value matches exactly one entry's path, and following
  the references ends at a root after finitely many steps. \<open>ancestors registry ref ps\<close>
  says that \<open>ps\<close> is that chain, nearest ancestor first. A reference that matches no
  entry or several, or lies on a cycle, has no chain.
\<close>

inductive ancestors :: "RouteDefinition list \<Rightarrow> string option \<Rightarrow> RouteDefinition list \<Rightarrow> bool"
  for registry :: "RouteDefinition list"
where
  root: "ancestors registry None []"
| step: "filter (\<lambda>r. path r = s) registry = [p] \<Longrightarrow> ancestors registry (parent p) ps \<Longrightarrow>
         ancestors registry (Some s) (p # ps)"

text \<open>A well-formed acyclic registry: every entry has an ancestor chain.\<close>

definition wellformed :: "RouteDefinition list \<Rightarrow> bool" where
  "wellformed registry = (\<forall>r \<in> set registry. \<exists>ps. ancestors registry (parent r) ps)"

text \<open>
  The part of an ancestor chain that lies before the first parent reference that is the
  empty string: \<open>cur\<close> is the reference to the head of the chain.
\<close>

fun walked :: "string option \<Rightarrow> RouteDefinition list \<Rightarrow> RouteDefinition list" where
  "walked cur [] = []"
| "walked cur (p # ps) = (if cur = Some [] then [] else p # walked (parent p) ps)"

text \<open>
  Following parent references from \<open>ref\<close> (the first entry with a matching path is the
  parent) reaches a non-null reference that matches no entry's path.
\<close>

inductive reachesMissing :: "RouteDefinition list \<Rightarrow> string option \<Rightarrow> bool"
  for registry :: "RouteDefinition list"
where
  missing: "findParent registry s = None \<Longrightarrow> reachesMissing registry (Some s)"
| via: "findParent registry s = Some p \<Longrightarrow> reachesMissing registry (parent p) \<Longrightarrow>
        reachesMissing registry (Some s)"

text \<open>
  The same, where every reference followed and the one that matches no entry are
  non-empty strings.
\<close>

inductive walkReachesMissing :: "RouteDefinition list \<Rightarrow> string option \<Rightarrow> bool"
  for registry :: "RouteDefinition list"
where
  missing: "s \<noteq> [] \<Longrightarrow> findParent registry s = None \<Longrightarrow> walkReachesMissing registry (Some s)"
| via: "s \<noteq> [] \<Longrightarrow> findParent registry s = Some p \<Longrightarrow>
        walkReachesMissing registry (parent p) \<Longrightarrow> walkReachesMissing registry (Some s)"

section \<open>Concrete registries and users\<close>

text \<open>The registry of Scenario 2 and its resolution.\<close>

definition scenario2 :: "RouteDefinition list" where
  "scenario2 =
     [\<lparr>path = ''/'', parent = None, level = 0\<rparr>,
      \<lparr>path = ''/admin'', parent = Some ''/'', level = 5\<rparr>,
      \<lparr>path = ''/users'', parent = Some ''/admin'', level = 2\<rparr>]"

definition resolved2 :: "ResolvedRoute list" where
  "resolved2 =
     [\<lparr>absolutePath = ''/'', access = 0\<rparr>,
      \<lparr>absolutePath = ''/admin'', access = 5\<rparr>,
      \<lparr>absolutePath = ''/admin/users'', access = 5\<rparr>]"

text \<open>A registry whose root entry has the empty path, and a child that refers to it.\<close>

definition emptyRootRegistry :: "RouteDefinition list" where
  "emptyRootRegistry =
     [\<lparr>path = [], parent = None, level = 5\<rparr>,
      \<lparr>path = ''/a'', parent = Some [], level = 1\<rparr>]"

text \<open>The same below a root \<open>/r\<close>: the entry \<open>/a\<close> has the empty path and \<open>/r\<close> as ancestors.\<close>

definition viaEmptyRegistry :: "RouteDefinition list" where
  "viaEmptyRegistry =
     [\<lparr>path = ''/r'', parent = None, level = 7\<rparr>,
      \<lparr>path = [], parent = Some ''/r'', level = 3\<rparr>,
      \<lparr>path = ''/a'', parent = Some [], level = 1\<rparr>]"

text \<open>A registry whose only entry refers to the empty path, which no entry has.\<close>

definition emptyParentRegistry :: "RouteDefinition list" where
  "emptyParentRegistry = [\<lparr>path = ''/a'', parent = Some [], level = 1\<rparr>]"

text \<open>A registry whose second entry refers to a path that no entry has.\<close>

definition missingParentRegistry :: "RouteDefinition list" where
  "missingParentRegistry =
     [\<lparr>path = ''/'', parent = None, level = 0\<rparr>,
      \<lparr>path = ''/a'', parent = Some ''/zz'', level = 1\<rparr>]"

text \<open>A registry whose first entry is its own parent, before an entry with a missing parent.\<close>

definition cyclicRegistry :: "RouteDefinition list" where
  "cyclicRegistry =
     [\<lparr>path = ''/x'', parent = Some ''/x'', level = 0\<rparr>,
      \<lparr>path = ''/a'', parent = Some ''/zz'', level = 1\<rparr>]"

text \<open>An entry with a missing parent before an entry whose parent is the empty string.\<close>

definition missingThenEmptyRegistry :: "RouteDefinition list" where
  "missingThenEmptyRegistry =
     [\<lparr>path = ''/a'', parent = Some ''/zz'', level = 1\<rparr>,
      \<lparr>path = ''/b'', parent = Some [], level = 1\<rparr>]"

text \<open>An entry with a missing parent before an entry that is its own parent.\<close>

definition missingThenCycleRegistry :: "RouteDefinition list" where
  "missingThenCycleRegistry =
     [\<lparr>path = ''/a'', parent = Some ''/zz'', level = 1\<rparr>,
      \<lparr>path = ''/x'', parent = Some ''/x'', level = 0\<rparr>]"

text \<open>
  A store that holds the registry of Scenario 2 at address 3, and the store after one
  call of \<open>getAllPaths\<close> on it.
\<close>

definition scenario2Store :: store where
  "scenario2Store =
     [RouteObj \<lparr>path = ''/'', parent = None, level = 0\<rparr>,
      RouteObj \<lparr>path = ''/admin'', parent = Some ''/'', level = 5\<rparr>,
      RouteObj \<lparr>path = ''/users'', parent = Some ''/admin'', level = 2\<rparr>,
      ArrayObj [0, 1, 2]]"

definition scenario2Store1 :: store where
  "scenario2Store1 = scenario2Store @
     [ResolvedObj \<lparr>absolutePath = ''/'', access = 0\<rparr>,
      ResolvedObj \<lparr>absolutePath = ''/admin'', access = 5\<rparr>,
      ResolvedObj \<lparr>absolutePath = ''/admin/users'', access = 5\<rparr>,
      ArrayObj [4, 5, 6]]"

definition bob :: User where
  "bob = \<lparr>name = ''bob'', level = 3\<rparr>"

definition carol :: User where
  "carol = \<lparr>name = ''carol'', level = 3\<rparr>"

definition root_user :: User where
  "root_user = \<lparr>name = ''root'', level = 1000000000000\<rparr>"

section \<open>Access decisions\<close>

lemma find_absent:
  "p \<notin> absolutePath ` set paths \<Longrightarrow> find (\<lambda>r. absolutePath r = p) paths = None"
  by (auto simp: find_None_iff)

lemma scenario3: "\<not> hasAccess bob ''/admin'' resolved2 \<and> hasAccess bob ''/'' resolved2"
  by (simp add: hasAccess_def bob_def resolved2_def)

lemma scenario5:
  "getUserPaths \<lparr>name = ''x'', level = 5\<rparr> resolved2 = resolved2 \<and>
   getUserPaths \<lparr>name = ''x'', level = 0\<rparr> resolved2 = [\<lparr>absolutePath = ''/'', access = 0\<rparr>]"
  by (simp add: getUserPaths_def hasAccess_def resolved2_def)

text \<open>
  Claim C3. For every user, whatever the level, every path and every resolved sequence:
  when the path equals the \<open>absolutePath\<close> of no entry, \<open>hasAccess\<close> returns false. The
  value destructured from the fallback \<open>-1\<close> is \<open>undefined\<close>, and the decision made
  with it is the one \<open>_accessGranted\<close> makes for the sentinel level \<open>-1\<close>.
\<close>

theorem hasAccess_miss_denied:
  "p \<notin> absolutePath ` set resolved \<Longrightarrow>
   \<not> hasAccess user p resolved \<and>
   hasAccess user p resolved = accessGranted (Num (-1)) (User.level user)"
  by (simp add: hasAccess_def find_absent)

theorem hasAccess_miss_denied_witness:
  "''/missing'' \<notin> absolutePath ` set resolved2 \<and>
   \<not> hasAccess root_user ''/missing'' resolved2 \<and>
   hasAccess root_user ''/missing'' resolved2 = accessGranted (Num (-1)) (User.level root_user)"
proof -
  have h: "''/missing'' \<notin> absolutePath ` set resolved2"
    by (simp add: resolved2_def)
  from hasAccess_miss_denied [OF h, of root_user] h show ?thesis by simp
qed

text \<open>
  Claim C4. \<open>_accessGranted(access, level)\<close> is true exactly when \<open>access > -1\<close> and
  \<open>level >= access\<close>; an access of \<open>-1\<close> or below grants nothing, whatever the level.
\<close>

theorem accessGranted_iff:
  "(accessGranted (Num acc) lvl \<longleftrightarrow> acc > -1 \<and> lvl \<ge> acc) \<and>
   (acc \<le> -1 \<longrightarrow> \<not> accessGranted (Num acc) lvl)"
  by simp

theorem accessGranted_iff_witness:
  "(accessGranted (Num (-1)) 1000000000000 \<longleftrightarrow> (-1::int) > -1 \<and> (1000000000000::int) \<ge> -1) \<and>
   (-1::int) \<le> -1 \<and> \<not> accessGranted (Num (-1)) 1000000000000"
  using accessGranted_iff [of "-1" 1000000000000] by simp

text \<open>
  Claim C5. \<open>hasAccess\<close> is monotone in the user's level: with the path and the
  resolved sequence fixed, a user whose level is at least that of a user who has access
  has access too.
\<close>

theorem hasAccess_mono:
  "User.level u1 \<le> User.level u2 \<Longrightarrow> hasAccess u1 p resolved \<Longrightarrow> hasAccess u2 p resolved"
  by (cases "find (\<lambda>r. absolutePath r = p) resolved") (auto simp: hasAccess_def)

theorem hasAccess_mono_witness:
  "User.level bob \<le> User.level root_user \<and> hasAccess bob ''/'' resolved2 \<and>
   hasAccess root_user ''/'' resolved2"
proof -
  have l: "User.level bob \<le> User.level root_user"
    by (simp add: bob_def root_user_def)
  have b: "hasAccess bob ''/'' resolved2"
    by (simp add: hasAccess_def bob_def resolved2_def)
  from hasAccess_mono [OF l b] l b show ?thesis by simp
qed

text \<open>
  Claim C6. \<open>getUserPaths\<close> returns exactly the entries \<open>r\<close> of the resolved sequence
  for which \<open>hasAccess(user, r.absolutePath, paths)\<close> is true, in their original relative
  order: the result is that filter of the input, a subsequence of it, and its elements
  are the entries that pass.
\<close>

theorem getUserPaths_filter:
  "getUserPaths user paths = filter (\<lambda>r. hasAccess user (absolutePath r) paths) paths \<and>
   subseq (getUserPaths user paths) paths \<and>
   set (getUserPaths user paths) = {r. r \<in> set paths \<and> hasAccess user (absolutePath r) paths}"
  by (auto simp: getUserPaths_def)

text \<open>
  Claim C10. \<open>hasAccess\<close> and \<open>getUserPaths\<close> read only the level of the user: two users
  with equal levels, whatever their names, get the same results.
\<close>

theorem user_level_only:
  "User.level u1 = User.level u2 \<Longrightarrow>
   hasAccess u1 p resolved = hasAccess u2 p resolved \<and>
   getUserPaths u1 resolved = getUserPaths u2 resolved"
  by (simp add: getUserPaths_def hasAccess_def)

theorem user_level_only_witness:
  "User.level bob = User.level carol \<and> bob \<noteq> carol \<and>
   hasAccess bob ''/admin'' resolved2 = hasAccess carol ''/admin'' resolved2 \<and>
   getUserPaths bob resolved2 = getUserPaths carol resolved2"
proof -
  have l: "User.level bob = User.level carol"
    by (simp add: bob_def carol_def)
  have d: "bob \<noteq> carol"
    by (simp add: bob_def carol_def)
  from user_level_only [OF l, of "''/admin''" resolved2] l d show ?thesis by simp
qed

section \<open>Resolution of paths\<close>

lemma getPath_loop_stop:
  "\<not> truthy cur \<Longrightarrow>
   getPath_loop registry a c cur = Some (Inr \<lparr>absolutePath = a, access = c\<rparr>)"
  by (subst getPath_loop.simps) simp

lemma getPath_loop_missing:
  "truthy cur \<Longrightarrow> findParent registry (the cur) = None \<Longrightarrow>
   getPath_loop registry a c cur = Some (Inl TypeError)"
  by (subst getPath_loop.simps) simp

lemma getPath_loop_step:
  "truthy cur \<Longrightarrow> findParent registry (the cur) = Some p \<Longrightarrow>
   getPath_loop registry a c cur =
     getPath_loop registry (createRoute (path p) a) (max c (RouteDefinition.level p)) (parent p)"
  by (subst getPath_loop.simps) simp

lemma filter_single_find: "filter P xs = [p] \<Longrightarrow> find P xs = Some p"
  by (induction xs) (auto split: if_splits)

lemma Max_insert_max:
  "finite S \<Longrightarrow> Max (insert (max c l) S) = Max (insert c (insert (l::int) S))"
  by (cases "S = {}") (simp_all add: max.assoc)

lemma walked_all:
  "cur \<noteq> Some [] \<Longrightarrow> \<forall>p \<in> set ps. parent p \<noteq> Some [] \<Longrightarrow> walked cur ps = ps"
  by (induction ps arbitrary: cur) auto

lemma ancestors_walked:
  assumes "ancestors registry cur ps"
  shows "getPath_loop registry a c cur =
     Some (Inr \<lparr>absolutePath = foldl (\<lambda>acc p. createRoute (path p) acc) a (walked cur ps),
                access = Max (insert c (RouteDefinition.level ` set (walked cur ps)))\<rparr>)"
  using assms
proof (induction arbitrary: a c rule: ancestors.induct)
  case root
  then show ?case by (simp add: getPath_loop_stop)
next
  case (step s p ps)
  show ?case
  proof (cases "s = []")
    case True
    then show ?thesis by (simp add: getPath_loop_stop)
  next
    case False
    from step.hyps(1) have f: "findParent registry (the (Some s)) = Some p"
      by (simp add: findParent_def filter_single_find)
    from False have t: "truthy (Some s)" by simp
    have "getPath_loop registry a c (Some s) =
        getPath_loop registry (createRoute (path p) a) (max c (RouteDefinition.level p)) (parent p)"
      using t f by (rule getPath_loop_step)
    also note step.IH
    finally show ?thesis using False by (simp add: Max_insert_max)
  qed
qed

lemma foldl_createRoute:
  "foldl (\<lambda>acc p. createRoute (path p) acc) a ps =
   concat (rev (map path (filter (\<lambda>p. path p \<noteq> ''/'') ps))) @ a"
  by (induction ps arbitrary: a) (simp_all add: createRoute_def)

lemma getPath_walked:
  assumes "ancestors registry par ps"
  shows "getPath par p lvl registry =
     Some (Inr \<lparr>absolutePath =
                  concat (rev (map path (filter (\<lambda>q. path q \<noteq> ''/'') (walked par ps)))) @ p,
                access = Max (insert lvl (RouteDefinition.level ` set (walked par ps)))\<rparr>)"
  unfolding getPath_def by (simp add: ancestors_walked [OF assms] foldl_createRoute)

lemma map_js_Inr: "map_js f xs = Some (Inr ys) \<longleftrightarrow> list_all2 (\<lambda>x y. f x = Some (Inr y)) xs ys"
proof (induction xs arbitrary: ys)
  case Nil
  then show ?case by auto
next
  case (Cons x xs)
  show ?case
    by (cases ys) (auto simp: Cons.IH [symmetric] split: option.splits sum.splits)
qed

lemma list_all2_ex: "\<forall>x \<in> set xs. \<exists>y. R x y \<Longrightarrow> \<exists>ys. list_all2 R xs ys"
proof (induction xs)
  case Nil
  then show ?case by simp
next
  case (Cons x xs)
  then obtain y ys where "R x y" "list_all2 R xs ys" by auto
  then have "list_all2 R (x # xs) (y # ys)" by simp
  then show ?case by blast
qed

lemma ancestors_root_scenario2: "ancestors scenario2 (Some ''/'') [scenario2 ! 0]"
  by (simp add: scenario2_def ancestors.step ancestors.root)

lemma ancestors_admin_scenario2:
  "ancestors scenario2 (Some ''/admin'') [scenario2 ! 1, scenario2 ! 0]"
  using ancestors_root_scenario2 by (simp add: scenario2_def ancestors.step)

lemma wellformed_scenario2: "wellformed scenario2"
proof -
  have "\<exists>ps. ancestors scenario2 None ps" using ancestors.root by blast
  moreover have "\<exists>ps. ancestors scenario2 (Some ''/'') ps"
    using ancestors_root_scenario2 by blast
  moreover have "\<exists>ps. ancestors scenario2 (Some ''/admin'') ps"
    using ancestors_admin_scenario2 by blast
  ultimately show ?thesis
    unfolding wellformed_def by (simp add: scenario2_def)
qed

lemma getAllPaths_scenario2: "getAllPaths scenario2 = Some (Inr resolved2)"
  by code_simp

lemma ancestors_emptyRoot:
  "ancestors emptyRootRegistry (parent (emptyRootRegistry ! 1)) [emptyRootRegistry ! 0]"
  by (simp add: emptyRootRegistry_def ancestors.step ancestors.root)

lemma wellformed_emptyRoot: "wellformed emptyRootRegistry"
proof -
  have "\<exists>ps. ancestors emptyRootRegistry None ps" using ancestors.root by blast
  moreover have "\<exists>ps. ancestors emptyRootRegistry (Some []) ps"
    using ancestors_emptyRoot by (auto simp: emptyRootRegistry_def)
  ultimately show ?thesis
    unfolding wellformed_def by (simp add: emptyRootRegistry_def)
qed

lemma ancestors_viaEmpty:
  "ancestors viaEmptyRegistry (parent (viaEmptyRegistry ! 2))
     [viaEmptyRegistry ! 1, viaEmptyRegistry ! 0]"
proof -
  have "ancestors viaEmptyRegistry (Some ''/r'') [viaEmptyRegistry ! 0]"
    by (simp add: viaEmptyRegistry_def ancestors.step ancestors.root)
  then show ?thesis
    by (simp add: viaEmptyRegistry_def ancestors.step)
qed

lemma wellformed_viaEmpty: "wellformed viaEmptyRegistry"
proof -
  have "\<exists>ps. ancestors viaEmptyRegistry None ps" using ancestors.root by blast
  moreover have "ancestors viaEmptyRegistry (Some ''/r'') [viaEmptyRegistry ! 0]"
    by (simp add: viaEmptyRegistry_def ancestors.step ancestors.root)
  then have "\<exists>ps. ancestors viaEmptyRegistry (Some ''/r'') ps" by blast
  moreover have "\<exists>ps. ancestors viaEmptyRegistry (Some []) ps"
    using ancestors_viaEmpty by (auto simp: viaEmptyRegistry_def)
  ultimately show ?thesis
    unfolding wellformed_def by (simp add: viaEmptyRegistry_def)
qed

text \<open>
  Claim C1, as amended. For every well-formed acyclic registry, \<open>getAllPaths\<close> returns one
  resolved route per entry, in the order of the input (entry \<open>i\<close> of the result is what
  \<open>_getPath\<close> returns for entry \<open>i\<close> of the registry), and the \<open>access\<close> of each is the
  maximum of the entry's own level and the levels of its ancestors up to the first parent
  reference that is the empty string. For an entry with no such reference on its chain,
  that is the maximum over the entry and all its ancestors.
\<close>

theorem getAllPaths_access_max:
  assumes wf: "wellformed registry"
  shows "\<exists>out. getAllPaths registry = Some (Inr out) \<and> length out = length registry \<and>
     (\<forall>i < length registry.
        getPath (parent (registry ! i)) (path (registry ! i))
          (RouteDefinition.level (registry ! i)) registry = Some (Inr (out ! i)) \<and>
        (\<forall>ps. ancestors registry (parent (registry ! i)) ps \<longrightarrow>
           access (out ! i) =
             Max (insert (RouteDefinition.level (registry ! i))
               (RouteDefinition.level ` set (walked (parent (registry ! i)) ps))) \<and>
           (parent (registry ! i) \<noteq> Some [] \<and> (\<forall>p \<in> set ps. parent p \<noteq> Some []) \<longrightarrow>
              access (out ! i) =
                Max (insert (RouteDefinition.level (registry ! i))
                  (RouteDefinition.level ` set ps)))))"
proof -
  let ?f = "\<lambda>r. getPath (parent r) (path r) (RouteDefinition.level r) registry"
  have "\<forall>r \<in> set registry. \<exists>y. ?f r = Some (Inr y)"
  proof
    fix r assume r: "r \<in> set registry"
    with wf obtain ps where "ancestors registry (parent r) ps"
      unfolding wellformed_def by blast
    from getPath_walked [OF this] show "\<exists>y. ?f r = Some (Inr y)" by simp
  qed
  then have "\<exists>out. list_all2 (\<lambda>r y. ?f r = Some (Inr y)) registry out"
    by (rule list_all2_ex)
  then obtain out where out: "list_all2 (\<lambda>r y. ?f r = Some (Inr y)) registry out" ..
  then have res: "getAllPaths registry = Some (Inr out)"
    by (simp add: getAllPaths_def map_js_Inr)
  from out have len: "length out = length registry"
    by (simp add: list_all2_lengthD)
  have each: "\<forall>i < length registry. ?f (registry ! i) = Some (Inr (out ! i)) \<and>
        (\<forall>ps. ancestors registry (parent (registry ! i)) ps \<longrightarrow>
           access (out ! i) =
             Max (insert (RouteDefinition.level (registry ! i))
               (RouteDefinition.level ` set (walked (parent (registry ! i)) ps))) \<and>
           (parent (registry ! i) \<noteq> Some [] \<and> (\<forall>p \<in> set ps. parent p \<noteq> Some []) \<longrightarrow>
              access (out ! i) =
                Max (insert (RouteDefinition.level (registry ! i))
                  (RouteDefinition.level ` set ps))))"
  proof (intro allI impI conjI)
    fix i assume i: "i < length registry"
    from out i show fi: "?f (registry ! i) = Some (Inr (out ! i))"
      by (simp add: list_all2_conv_all_nth)
    fix ps assume a: "ancestors registry (parent (registry ! i)) ps"
    from getPath_walked [OF a, of "path (registry ! i)" "RouteDefinition.level (registry ! i)"] fi
    show w: "access (out ! i) =
        Max (insert (RouteDefinition.level (registry ! i))
          (RouteDefinition.level ` set (walked (parent (registry ! i)) ps)))"
      by simp
    assume "parent (registry ! i) \<noteq> Some [] \<and> (\<forall>p \<in> set ps. parent p \<noteq> Some [])"
    then have "walked (parent (registry ! i)) ps = ps" by (simp add: walked_all)
    with w show "access (out ! i) =
        Max (insert (RouteDefinition.level (registry ! i)) (RouteDefinition.level ` set ps))"
      by simp
  qed
  from res len each show ?thesis
    by (intro exI [of _ out] conjI)
qed

theorem getAllPaths_access_max_witness:
  "wellformed scenario2 \<and>
   ancestors scenario2 (parent (scenario2 ! 2)) [scenario2 ! 1, scenario2 ! 0] \<and>
   parent (scenario2 ! 2) \<noteq> Some [] \<and>
   parent (scenario2 ! 1) \<noteq> Some [] \<and> parent (scenario2 ! 0) \<noteq> Some [] \<and>
   (\<exists>out. getAllPaths scenario2 = Some (Inr out) \<and> length out = length scenario2 \<and>
      getPath (parent (scenario2 ! 2)) (path (scenario2 ! 2))
        (RouteDefinition.level (scenario2 ! 2)) scenario2 = Some (Inr (out ! 2)) \<and>
      access (out ! 2) =
        Max (insert (RouteDefinition.level (scenario2 ! 2))
          (RouteDefinition.level ` set [scenario2 ! 1, scenario2 ! 0])) \<and>
      access (out ! 2) = 5) \<and>
   wellformed emptyRootRegistry \<and>
   ancestors emptyRootRegistry (parent (emptyRootRegistry ! 1)) [emptyRootRegistry ! 0] \<and>
   (\<exists>out. getAllPaths emptyRootRegistry = Some (Inr out) \<and>
      length out = length emptyRootRegistry \<and>
      access (out ! 1) =
        Max (insert (RouteDefinition.level (emptyRootRegistry ! 1))
          (RouteDefinition.level `
             set (walked (parent (emptyRootRegistry ! 1)) [emptyRootRegistry ! 0]))) \<and>
      access (out ! 1) = 1)"
proof -
  have a: "ancestors scenario2 (parent (scenario2 ! 2)) [scenario2 ! 1, scenario2 ! 0]"
    using ancestors_admin_scenario2 by (simp add: scenario2_def)
  have n: "parent (scenario2 ! 2) \<noteq> Some []" "parent (scenario2 ! 1) \<noteq> Some []"
    "parent (scenario2 ! 0) \<noteq> Some []"
    by (simp_all add: scenario2_def)
  have l: "(2::nat) < length scenario2" by (simp add: scenario2_def)
  from getAllPaths_access_max [OF wellformed_scenario2]
  obtain out where o: "getAllPaths scenario2 = Some (Inr out)" "length out = length scenario2"
    and e: "\<forall>i < length scenario2.
        getPath (parent (scenario2 ! i)) (path (scenario2 ! i))
          (RouteDefinition.level (scenario2 ! i)) scenario2 = Some (Inr (out ! i)) \<and>
        (\<forall>ps. ancestors scenario2 (parent (scenario2 ! i)) ps \<longrightarrow>
           access (out ! i) =
             Max (insert (RouteDefinition.level (scenario2 ! i))
               (RouteDefinition.level ` set (walked (parent (scenario2 ! i)) ps))) \<and>
           (parent (scenario2 ! i) \<noteq> Some [] \<and> (\<forall>p \<in> set ps. parent p \<noteq> Some []) \<longrightarrow>
              access (out ! i) =
                Max (insert (RouteDefinition.level (scenario2 ! i))
                  (RouteDefinition.level ` set ps))))"
    by blast
  from e l have g: "getPath (parent (scenario2 ! 2)) (path (scenario2 ! 2))
          (RouteDefinition.level (scenario2 ! 2)) scenario2 = Some (Inr (out ! 2))"
    by blast
  from e l a n have m: "access (out ! 2) =
        Max (insert (RouteDefinition.level (scenario2 ! 2))
          (RouteDefinition.level ` set [scenario2 ! 1, scenario2 ! 0]))"
    by simp
  then have "access (out ! 2) = 5" by (simp add: scenario2_def)
  with o g m have first: "\<exists>out. getAllPaths scenario2 = Some (Inr out) \<and>
      length out = length scenario2 \<and>
      getPath (parent (scenario2 ! 2)) (path (scenario2 ! 2))
        (RouteDefinition.level (scenario2 ! 2)) scenario2 = Some (Inr (out ! 2)) \<and>
      access (out ! 2) =
        Max (insert (RouteDefinition.level (scenario2 ! 2))
          (RouteDefinition.level ` set [scenario2 ! 1, scenario2 ! 0])) \<and>
      access (out ! 2) = 5"
    by blast
  have l': "(1::nat) < length emptyRootRegistry" by (simp add: emptyRootRegistry_def)
  from getAllPaths_access_max [OF wellformed_emptyRoot]
  obtain out' where o': "getAllPaths emptyRootRegistry = Some (Inr out')"
      "length out' = length emptyRootRegistry"
    and e': "\<forall>i < length emptyRootRegistry.
        getPath (parent (emptyRootRegistry ! i)) (path (emptyRootRegistry ! i))
          (RouteDefinition.level (emptyRootRegistry ! i)) emptyRootRegistry =
          Some (Inr (out' ! i)) \<and>
        (\<forall>ps. ancestors emptyRootRegistry (parent (emptyRootRegistry ! i)) ps \<longrightarrow>
           access (out' ! i) =
             Max (insert (RouteDefinition.level (emptyRootRegistry ! i))
               (RouteDefinition.level ` set (walked (parent (emptyRootRegistry ! i)) ps))) \<and>
           (parent (emptyRootRegistry ! i) \<noteq> Some [] \<and>
            (\<forall>p \<in> set ps. parent p \<noteq> Some []) \<longrightarrow>
              access (out' ! i) =
                Max (insert (RouteDefinition.level (emptyRootRegistry ! i))
                  (RouteDefinition.level ` set ps))))"
    by blast
  from e' l' ancestors_emptyRoot have m': "access (out' ! 1) =
        Max (insert (RouteDefinition.level (emptyRootRegistry ! 1))
          (RouteDefinition.level `
             set (walked (parent (emptyRootRegistry ! 1)) [emptyRootRegistry ! 0])))"
    by blast
  then have "access (out' ! 1) = 1" by (simp add: emptyRootRegistry_def)
  with o' m' have second: "\<exists>out. getAllPaths emptyRootRegistry = Some (Inr out) \<and>
      length out = length emptyRootRegistry \<and>
      access (out ! 1) =
        Max (insert (RouteDefinition.level (emptyRootRegistry ! 1))
          (RouteDefinition.level `
             set (walked (parent (emptyRootRegistry ! 1)) [emptyRootRegistry ! 0]))) \<and>
      access (out ! 1) = 1"
    by blast
  from wellformed_scenario2 a n first wellformed_emptyRoot ancestors_emptyRoot second
  show ?thesis by (intro conjI)
qed

text \<open>
  The claim as stated fails where a parent reference is the empty string: the registry
  below is well-formed and acyclic, its second entry has the first as its only ancestor,
  the maximum of the two levels is 5, and \<open>getAllPaths\<close> gives the second entry access 1,
  since \<open>while (currentParent)\<close> ends the walk at the empty string.
\<close>

theorem getAllPaths_access_max_counterexample:
  "wellformed emptyRootRegistry \<and>
   ancestors emptyRootRegistry (parent (emptyRootRegistry ! 1)) [emptyRootRegistry ! 0] \<and>
   getAllPaths emptyRootRegistry =
     Some (Inr [\<lparr>absolutePath = [], access = 5\<rparr>, \<lparr>absolutePath = ''/a'', access = 1\<rparr>]) \<and>
   Max (insert (RouteDefinition.level (emptyRootRegistry ! 1))
     (RouteDefinition.level ` set [emptyRootRegistry ! 0])) = 5"
proof (intro conjI)
  show "wellformed emptyRootRegistry" by (rule wellformed_emptyRoot)
  show "ancestors emptyRootRegistry (parent (emptyRootRegistry ! 1)) [emptyRootRegistry ! 0]"
    by (rule ancestors_emptyRoot)
  show "getAllPaths emptyRootRegistry =
     Some (Inr [\<lparr>absolutePath = [], access = 5\<rparr>, \<lparr>absolutePath = ''/a'', access = 1\<rparr>])"
    by code_simp
  show "Max (insert (RouteDefinition.level (emptyRootRegistry ! 1))
     (RouteDefinition.level ` set [emptyRootRegistry ! 0])) = 5"
    by (simp add: emptyRootRegistry_def)
qed

section \<open>The walk towards the root\<close>

text \<open>
  Claim C2, as amended. In the walk, the path of each ancestor found is put in front of
  the accumulated absolute path, unless it is the root marker \<open>/\<close>, which adds nothing.
  The ancestors found are those up to the first parent reference that is the empty
  string: the absolute path returned is the entry's own path after the paths of these
  ancestors, farthest first, without those equal to \<open>/\<close>. In the registry of Scenario 2
  the route \<open>/users\<close> resolves to the absolute path \<open>/admin/users\<close> with access 5.
\<close>

theorem createRoute_prepends:
  "createRoute p a = (if p = ''/'' then a else p @ a) \<and>
   (truthy cur \<and> findParent registry (the cur) = Some q \<longrightarrow>
      getPath_loop registry a c cur =
        getPath_loop registry (if path q = ''/'' then a else path q @ a)
          (max c (RouteDefinition.level q)) (parent q)) \<and>
   (ancestors registry par ps \<longrightarrow>
      (\<exists>res. getPath par p lvl registry = Some (Inr res) \<and>
         absolutePath res =
           concat (rev (map path (filter (\<lambda>q. path q \<noteq> ''/'') (walked par ps)))) @ p)) \<and>
   getPath (Some ''/admin'') ''/users'' 2 scenario2 =
     Some (Inr \<lparr>absolutePath = ''/admin/users'', access = 5\<rparr>) \<and>
   getAllPaths scenario2 =
     Some (Inr [\<lparr>absolutePath = ''/'', access = 0\<rparr>,
                \<lparr>absolutePath = ''/admin'', access = 5\<rparr>,
                \<lparr>absolutePath = ''/admin/users'', access = 5\<rparr>])"
proof (intro conjI impI)
  show "createRoute p a = (if p = ''/'' then a else p @ a)"
    by (simp add: createRoute_def)
  show "getPath_loop registry a c cur =
        getPath_loop registry (if path q = ''/'' then a else path q @ a)
          (max c (RouteDefinition.level q)) (parent q)"
    if "truthy cur \<and> findParent registry (the cur) = Some q"
    using that by (simp add: getPath_loop_step createRoute_def)
  show "\<exists>res. getPath par p lvl registry = Some (Inr res) \<and>
         absolutePath res =
           concat (rev (map path (filter (\<lambda>q. path q \<noteq> ''/'') (walked par ps)))) @ p"
    if "ancestors registry par ps"
    using getPath_walked [OF that, of p lvl] by simp
  show "getPath (Some ''/admin'') ''/users'' 2 scenario2 =
     Some (Inr \<lparr>absolutePath = ''/admin/users'', access = 5\<rparr>)"
    by code_simp
  show "getAllPaths scenario2 =
     Some (Inr [\<lparr>absolutePath = ''/'', access = 0\<rparr>,
                \<lparr>absolutePath = ''/admin'', access = 5\<rparr>,
                \<lparr>absolutePath = ''/admin/users'', access = 5\<rparr>])"
    using getAllPaths_scenario2 by (simp add: resolved2_def)
qed

theorem createRoute_prepends_witness:
  "truthy (Some ''/admin'') \<and>
   findParent scenario2 (the (Some ''/admin'')) =
     Some \<lparr>path = ''/admin'', parent = Some ''/'', level = 5\<rparr> \<and>
   getPath_loop scenario2 ''/users'' 2 (Some ''/admin'') =
     getPath_loop scenario2 ''/admin/users'' 5 (Some ''/'') \<and>
   ancestors scenario2 (Some ''/admin'') [scenario2 ! 1, scenario2 ! 0] \<and>
   (\<exists>res. getPath (Some ''/admin'') ''/users'' 2 scenario2 = Some (Inr res) \<and>
      absolutePath res = ''/admin/users'') \<and>
   ancestors viaEmptyRegistry (Some []) [viaEmptyRegistry ! 1, viaEmptyRegistry ! 0] \<and>
   (\<exists>res. getPath (Some []) ''/a'' 1 viaEmptyRegistry = Some (Inr res) \<and>
      absolutePath res = ''/a'')"
proof -
  have t: "truthy (Some ''/admin'')" by simp
  have f: "findParent scenario2 (the (Some ''/admin'')) =
     Some \<lparr>path = ''/admin'', parent = Some ''/'', level = 5\<rparr>"
    by (simp add: findParent_def scenario2_def)
  from createRoute_prepends [of "''/admin''" "''/users''" "Some ''/admin''" scenario2
      "\<lparr>path = ''/admin'', parent = Some ''/'', level = 5\<rparr>" 2] t f
  have 1: "getPath_loop scenario2 ''/users'' 2 (Some ''/admin'') =
     getPath_loop scenario2 ''/admin/users'' 5 (Some ''/'')"
    by simp
  have a: "ancestors scenario2 (Some ''/admin'') [scenario2 ! 1, scenario2 ! 0]"
    by (rule ancestors_admin_scenario2)
  have w: "walked (Some ''/admin'') [scenario2 ! 1, scenario2 ! 0] = [scenario2 ! 1, scenario2 ! 0]"
    by (simp add: scenario2_def)
  from createRoute_prepends [where registry = scenario2 and par = "Some ''/admin''"
      and ps = "[scenario2 ! 1, scenario2 ! 0]" and p = "''/users''" and lvl = 2] a
  have 2: "\<exists>res. getPath (Some ''/admin'') ''/users'' 2 scenario2 = Some (Inr res) \<and>
      absolutePath res = ''/admin/users''"
    unfolding w by (simp add: scenario2_def)
  have b: "ancestors viaEmptyRegistry (Some []) [viaEmptyRegistry ! 1, viaEmptyRegistry ! 0]"
    using ancestors_viaEmpty by (simp add: viaEmptyRegistry_def)
  from createRoute_prepends [where registry = viaEmptyRegistry and par = "Some []"
      and ps = "[viaEmptyRegistry ! 1, viaEmptyRegistry ! 0]" and p = "''/a''" and lvl = 1] b
  have 3: "\<exists>res. getPath (Some []) ''/a'' 1 viaEmptyRegistry = Some (Inr res) \<and>
      absolutePath res = ''/a''"
    by simp
  from t f 1 a 2 b 3 show ?thesis by (intro conjI)
qed

text \<open>
  The claim as stated fails for an ancestor behind an empty parent reference: the entry
  \<open>/a\<close> below has the ancestors \<open>""\<close> and \<open>/r\<close>, putting each ancestor's path in front gives
  \<open>/r/a\<close>, and \<open>_getPath\<close> returns \<open>/a\<close>.
\<close>

theorem createRoute_prepends_counterexample:
  "wellformed viaEmptyRegistry \<and>
   ancestors viaEmptyRegistry (parent (viaEmptyRegistry ! 2))
     [viaEmptyRegistry ! 1, viaEmptyRegistry ! 0] \<and>
   foldl (\<lambda>acc p. createRoute (path p) acc) (path (viaEmptyRegistry ! 2))
     [viaEmptyRegistry ! 1, viaEmptyRegistry ! 0] = ''/r/a'' \<and>
   getPath (parent (viaEmptyRegistry ! 2)) (path (viaEmptyRegistry ! 2))
     (RouteDefinition.level (viaEmptyRegistry ! 2)) viaEmptyRegistry =
     Some (Inr \<lparr>absolutePath = ''/a'', access = 1\<rparr>) \<and>
   getAllPaths viaEmptyRegistry =
     Some (Inr [\<lparr>absolutePath = ''/r'', access = 7\<rparr>,
                \<lparr>absolutePath = ''/r'', access = 7\<rparr>,
                \<lparr>absolutePath = ''/a'', access = 1\<rparr>])"
proof (intro conjI)
  show "wellformed viaEmptyRegistry" by (rule wellformed_viaEmpty)
  show "ancestors viaEmptyRegistry (parent (viaEmptyRegistry ! 2))
     [viaEmptyRegistry ! 1, viaEmptyRegistry ! 0]"
    by (rule ancestors_viaEmpty)
  show "foldl (\<lambda>acc p. createRoute (path p) acc) (path (viaEmptyRegistry ! 2))
     [viaEmptyRegistry ! 1, viaEmptyRegistry ! 0] = ''/r/a''"
    by (simp add: viaEmptyRegistry_def createRoute_def)
  show "getPath (parent (viaEmptyRegistry ! 2)) (path (viaEmptyRegistry ! 2))
     (RouteDefinition.level (viaEmptyRegistry ! 2)) viaEmptyRegistry =
     Some (Inr \<lparr>absolutePath = ''/a'', access = 1\<rparr>)"
    by (simp add: viaEmptyRegistry_def getPath_def getPath_loop_stop)
  show "getAllPaths viaEmptyRegistry =
     Some (Inr [\<lparr>absolutePath = ''/r'', access = 7\<rparr>,
                \<lparr>absolutePath = ''/r'', access = 7\<rparr>,
                \<lparr>absolutePath = ''/a'', access = 1\<rparr>])"
    by code_simp
qed

text \<open>
  Claim C9, as amended. The walk ends exactly when the parent reference is falsy, which
  is null, absent or the empty string, and returns the accumulated values; for every
  non-empty parent reference the parent is looked up in the registry, the call raises
  when there is none, and the walk goes on from the entry found.
\<close>

theorem walk_ends_at_falsy_parent:
  "(cur = None \<or> cur = Some [] \<longrightarrow>
      getPath_loop registry a c cur = Some (Inr \<lparr>absolutePath = a, access = c\<rparr>)) \<and>
   (s \<noteq> [] \<longrightarrow>
      getPath_loop registry a c (Some s) =
        (case findParent registry s of
           None \<Rightarrow> Some (Inl TypeError)
         | Some p \<Rightarrow>
             getPath_loop registry (createRoute (path p) a)
               (max c (RouteDefinition.level p)) (parent p)))"
proof (intro conjI impI)
  assume "cur = None \<or> cur = Some []"
  then have "\<not> truthy cur" by auto
  then show "getPath_loop registry a c cur = Some (Inr \<lparr>absolutePath = a, access = c\<rparr>)"
    by (rule getPath_loop_stop)
next
  assume "s \<noteq> []"
  then show "getPath_loop registry a c (Some s) =
        (case findParent registry s of
           None \<Rightarrow> Some (Inl TypeError)
         | Some p \<Rightarrow>
             getPath_loop registry (createRoute (path p) a)
               (max c (RouteDefinition.level p)) (parent p))"
    by (subst getPath_loop.simps) simp
qed

theorem walk_ends_at_falsy_parent_witness:
  "(Some [] = None \<or> Some [] = Some ([] :: string)) \<and>
   getPath_loop emptyRootRegistry ''/a'' 1 (Some []) =
     Some (Inr \<lparr>absolutePath = ''/a'', access = 1\<rparr>) \<and>
   ''/admin'' \<noteq> [] \<and>
   getPath_loop scenario2 ''/users'' 2 (Some ''/admin'') =
     (case findParent scenario2 ''/admin'' of
        None \<Rightarrow> Some (Inl TypeError)
      | Some p \<Rightarrow>
          getPath_loop scenario2 (createRoute (path p) ''/users'')
            (max 2 (RouteDefinition.level p)) (parent p))"
  using walk_ends_at_falsy_parent [of "Some []" emptyRootRegistry "''/a''" 1 "''/admin''"]
    walk_ends_at_falsy_parent [of None scenario2 "''/users''" 2 "''/admin''"]
  by simp

text \<open>
  The claim as stated fails for the empty string: the second entry below has the
  non-null parent \<open>""\<close>, which the first entry matches, and its walk returns at once
  with access 1; the walk that looks the parent up would return access 5.
\<close>

theorem walk_empty_parent_counterexample:
  "parent (emptyRootRegistry ! 1) = Some [] \<and>
   findParent emptyRootRegistry [] = Some \<lparr>path = [], parent = None, level = 5\<rparr> \<and>
   getPath (parent (emptyRootRegistry ! 1)) (path (emptyRootRegistry ! 1))
     (RouteDefinition.level (emptyRootRegistry ! 1)) emptyRootRegistry =
     Some (Inr \<lparr>absolutePath = ''/a'', access = 1\<rparr>) \<and>
   getPath_loop emptyRootRegistry (createRoute [] ''/a'') (max 1 5) None =
     Some (Inr \<lparr>absolutePath = ''/a'', access = 5\<rparr>)"
proof (intro conjI)
  show "parent (emptyRootRegistry ! 1) = Some []"
    by (simp add: emptyRootRegistry_def)
  show "findParent emptyRootRegistry [] = Some \<lparr>path = [], parent = None, level = 5\<rparr>"
    by (simp add: findParent_def emptyRootRegistry_def)
  show "getPath (parent (emptyRootRegistry ! 1)) (path (emptyRootRegistry ! 1))
     (RouteDefinition.level (emptyRootRegistry ! 1)) emptyRootRegistry =
     Some (Inr \<lparr>absolutePath = ''/a'', access = 1\<rparr>)"
    by (simp add: emptyRootRegistry_def getPath_def getPath_loop_stop)
  show "getPath_loop emptyRootRegistry (createRoute [] ''/a'') (max 1 5) None =
     Some (Inr \<lparr>absolutePath = ''/a'', access = 5\<rparr>)"
    by (simp add: getPath_loop_stop createRoute_def)
qed

section \<open>Missing parents\<close>

lemma walkReachesMissing_reachesMissing:
  "walkReachesMissing registry cur \<Longrightarrow> reachesMissing registry cur"
  by (induction rule: walkReachesMissing.induct) (auto intro: reachesMissing.intros)

lemma walkReachesMissing_raises:
  assumes "walkReachesMissing registry cur"
  shows "getPath_loop registry a c cur = Some (Inl TypeError)"
  using assms
proof (induction arbitrary: a c rule: walkReachesMissing.induct)
  case (missing s)
  then show ?case by (simp add: getPath_loop_missing)
next
  case (via s p)
  from via.hyps(1) have "truthy (Some s)" by simp
  with via.hyps(2) have "getPath_loop registry a c (Some s) =
      getPath_loop registry (createRoute (path p) a) (max c (RouteDefinition.level p)) (parent p)"
    by (simp add: getPath_loop_step)
  with via.IH show ?case by simp
qed

text \<open>
  Conversely, \<open>_getPath\<close> raises only when the walk reaches a missing parent through
  non-empty references.
\<close>

lemma raises_walkReachesMissing:
  assumes "getPath_loop registry a c cur = Some y"
  shows "y = Inl TypeError \<longrightarrow> walkReachesMissing registry cur"
proof (rule getPath_loop.raw_induct
    [where P = "\<lambda>registry a c cur y. y = Inl TypeError \<longrightarrow> walkReachesMissing registry cur",
      OF _ assms])
  fix f registry a c cur y
  assume IH: "\<And>registry a c cur y. f registry a c cur = Some y \<Longrightarrow>
      y = Inl TypeError \<longrightarrow> walkReachesMissing registry cur"
    and body: "(if truthy cur then
        (case findParent registry (the cur) of
           None \<Rightarrow> Some (Inl TypeError)
         | Some p \<Rightarrow> f registry (createRoute (path p) a)
               (max c (RouteDefinition.level p)) (parent p))
      else Some (Inr \<lparr>absolutePath = a, access = c\<rparr>)) = Some y"
  show "y = Inl TypeError \<longrightarrow> walkReachesMissing registry cur"
  proof
    assume y: "y = Inl TypeError"
    with body have t: "truthy cur" by (auto split: if_splits)
    then obtain s where s: "cur = Some s" "s \<noteq> []" by (cases cur) auto
    show "walkReachesMissing registry cur"
    proof (cases "findParent registry s")
      case None
      with s show ?thesis by (simp add: walkReachesMissing.missing)
    next
      case (Some p)
      with body t s have "f registry (createRoute (path p) a)
          (max c (RouteDefinition.level p)) (parent p) = Some y"
        by simp
      from IH [OF this] y have "walkReachesMissing registry (parent p)" by simp
      with Some s show ?thesis by (simp add: walkReachesMissing.via)
    qed
  qed
qed

lemma getPath_raises_iff:
  "getPath par p lvl registry = Some (Inl TypeError) \<longleftrightarrow> walkReachesMissing registry par"
  unfolding getPath_def
  using raises_walkReachesMissing walkReachesMissing_raises by blast

lemma map_js_raises_first:
  "i < length xs \<Longrightarrow> f (xs ! i) = Some (Inl TypeError) \<Longrightarrow> \<forall>j < i. f (xs ! j) \<noteq> None \<Longrightarrow>
   map_js f xs = Some (Inl TypeError)"
proof (induction xs arbitrary: i)
  case Nil
  then show ?case by simp
next
  case (Cons x xs)
  show ?case
  proof (cases i)
    case 0
    with Cons.prems show ?thesis by simp
  next
    case (Suc k)
    with Cons.prems have k: "k < length xs" "f (xs ! k) = Some (Inl TypeError)"
      by simp_all
    from Cons.prems(3) Suc have "\<forall>j < k. f (xs ! j) \<noteq> None" by auto
    with k have rest: "map_js f xs = Some (Inl TypeError)" by (rule Cons.IH)
    from Cons.prems(3) Suc have "f x \<noteq> None" by auto
    then obtain v where v: "f x = Some v" by auto
    show ?thesis
    proof (cases v)
      case (Inl e)
      with v show ?thesis by (cases e) simp
    next
      case (Inr y)
      with v rest show ?thesis by simp
    qed
  qed
qed

lemma map_js_not_returning_nth:
  "i < length xs \<Longrightarrow> f (xs ! i) = Some (Inl e) \<Longrightarrow> map_js f xs \<noteq> Some (Inr ys)"
  by (auto simp: map_js_Inr list_all2_conv_all_nth)

text \<open>
  Claim C8, as amended. When the ancestor chain of an entry reaches, through non-empty
  parent references, a non-empty parent reference that matches no entry's path,
  \<open>_getPath\<close> raises for that entry and \<open>getAllPaths\<close> does not return normally; the
  error of the failed lookup reaches the caller of \<open>getAllPaths\<close> when the walk of every
  entry before that one ends.
\<close>

theorem missing_parent_raises:
  assumes "i < length registry" and "walkReachesMissing registry (parent (registry ! i))"
  shows "getPath (parent (registry ! i)) (path (registry ! i))
      (RouteDefinition.level (registry ! i)) registry = Some (Inl TypeError) \<and>
    (\<forall>out. getAllPaths registry \<noteq> Some (Inr out)) \<and>
    ((\<forall>j < i. getPath (parent (registry ! j)) (path (registry ! j))
        (RouteDefinition.level (registry ! j)) registry \<noteq> None) \<longrightarrow>
      getAllPaths registry = Some (Inl TypeError))"
proof -
  let ?f = "\<lambda>r. getPath (parent r) (path r) (RouteDefinition.level r) registry"
  from assms(2) have raises: "?f (registry ! i) = Some (Inl TypeError)"
    by (simp add: getPath_def walkReachesMissing_raises)
  have "getAllPaths registry \<noteq> Some (Inr out)" for out
    unfolding getAllPaths_def using assms(1) raises by (rule map_js_not_returning_nth)
  moreover have "getAllPaths registry = Some (Inl TypeError)"
    if "\<forall>j < i. ?f (registry ! j) \<noteq> None"
    unfolding getAllPaths_def using assms(1) raises that by (rule map_js_raises_first)
  ultimately show ?thesis using raises by blast
qed

lemma walkReachesMissing_missingParent:
  "walkReachesMissing missingParentRegistry (parent (missingParentRegistry ! 1))"
  by (simp add: missingParentRegistry_def walkReachesMissing.missing findParent_def)

theorem missing_parent_raises_witness:
  "(1::nat) < length missingParentRegistry \<and>
   walkReachesMissing missingParentRegistry (parent (missingParentRegistry ! 1)) \<and>
   getPath (parent (missingParentRegistry ! 0)) (path (missingParentRegistry ! 0))
     (RouteDefinition.level (missingParentRegistry ! 0)) missingParentRegistry \<noteq> None \<and>
   getPath (parent (missingParentRegistry ! 1)) (path (missingParentRegistry ! 1))
     (RouteDefinition.level (missingParentRegistry ! 1)) missingParentRegistry =
     Some (Inl TypeError) \<and>
   getAllPaths missingParentRegistry = Some (Inl TypeError) \<and>
   (0::nat) < length missingThenCycleRegistry \<and>
   walkReachesMissing missingThenCycleRegistry (parent (missingThenCycleRegistry ! 0)) \<and>
   getAllPaths missingThenCycleRegistry = Some (Inl TypeError) \<and>
   (0::nat) < length missingThenEmptyRegistry \<and>
   walkReachesMissing missingThenEmptyRegistry (parent (missingThenEmptyRegistry ! 0)) \<and>
   getAllPaths missingThenEmptyRegistry = Some (Inl TypeError)"
proof -
  have l: "(1::nat) < length missingParentRegistry"
    by (simp add: missingParentRegistry_def)
  have z: "getPath (parent (missingParentRegistry ! 0)) (path (missingParentRegistry ! 0))
     (RouteDefinition.level (missingParentRegistry ! 0)) missingParentRegistry \<noteq> None"
    by (simp add: missingParentRegistry_def getPath_def getPath_loop_stop)
  then have t: "\<forall>j < (1::nat). getPath (parent (missingParentRegistry ! j))
     (path (missingParentRegistry ! j))
     (RouteDefinition.level (missingParentRegistry ! j)) missingParentRegistry \<noteq> None"
    by simp
  from missing_parent_raises [OF l walkReachesMissing_missingParent] t
  have 1: "getPath (parent (missingParentRegistry ! 1)) (path (missingParentRegistry ! 1))
     (RouteDefinition.level (missingParentRegistry ! 1)) missingParentRegistry =
     Some (Inl TypeError)" "getAllPaths missingParentRegistry = Some (Inl TypeError)"
    by blast+
  have lc: "(0::nat) < length missingThenCycleRegistry"
    by (simp add: missingThenCycleRegistry_def)
  have wc: "walkReachesMissing missingThenCycleRegistry (parent (missingThenCycleRegistry ! 0))"
    by (simp add: missingThenCycleRegistry_def walkReachesMissing.missing findParent_def)
  from missing_parent_raises [OF lc wc]
  have 2: "getAllPaths missingThenCycleRegistry = Some (Inl TypeError)" by simp
  have le: "(0::nat) < length missingThenEmptyRegistry"
    by (simp add: missingThenEmptyRegistry_def)
  have we: "walkReachesMissing missingThenEmptyRegistry (parent (missingThenEmptyRegistry ! 0))"
    by (simp add: missingThenEmptyRegistry_def walkReachesMissing.missing findParent_def)
  from missing_parent_raises [OF le we]
  have 3: "getAllPaths missingThenEmptyRegistry = Some (Inl TypeError)" by simp
  from l walkReachesMissing_missingParent z 1 lc wc 2 le we 3 show ?thesis by (intro conjI)
qed

text \<open>
  Evaluating the code on the last two registries gives the same: the entry with the
  missing parent comes first, and what follows it is not reached.
\<close>

lemma missingThenEmpty_raises: "getAllPaths missingThenEmptyRegistry = Some (Inl TypeError)"
  by code_simp

lemma missingThenCycle_raises: "getAllPaths missingThenCycleRegistry = Some (Inl TypeError)"
  by code_simp

text \<open>
  A cycle before the entry with the missing parent: the walk of the first entry has no
  end, the lookup that would fail is never made, and the call has no result. What ends
  it in an engine is the limit on the length of a string or on memory, not the error of
  a failed lookup.
\<close>

lemma getPath_cycle_no_value:
  assumes "getPath_loop registry a c cur = Some y"
  shows "registry = cyclicRegistry \<longrightarrow> cur = Some ''/x'' \<longrightarrow> False"
proof (rule getPath_loop.raw_induct
    [where P = "\<lambda>registry a c cur y. registry = cyclicRegistry \<longrightarrow> cur = Some ''/x'' \<longrightarrow> False",
      OF _ assms])
  fix f registry a c cur y
  assume IH: "\<And>registry a c cur y. f registry a c cur = Some y \<Longrightarrow>
      registry = cyclicRegistry \<longrightarrow> cur = Some ''/x'' \<longrightarrow> False"
    and body: "(if truthy cur then
        (case findParent registry (the cur) of
           None \<Rightarrow> Some (Inl TypeError)
         | Some p \<Rightarrow> f registry (createRoute (path p) a)
               (max c (RouteDefinition.level p)) (parent p))
      else Some (Inr \<lparr>absolutePath = a, access = c\<rparr>)) = Some y"
  show "registry = cyclicRegistry \<longrightarrow> cur = Some ''/x'' \<longrightarrow> False"
  proof (intro impI)
    assume r: "registry = cyclicRegistry" and cur: "cur = Some ''/x''"
    with body have "f cyclicRegistry (createRoute ''/x'' a) (max c 0) (Some ''/x'') = Some y"
      by (simp add: findParent_def cyclicRegistry_def)
    from IH [OF this] show False by simp
  qed
qed

lemma getPath_cycle_no_result: "getPath_loop cyclicRegistry a c (Some ''/x'') = None"
proof (cases "getPath_loop cyclicRegistry a c (Some ''/x'')")
  case None
  then show ?thesis .
next
  case (Some y)
  from getPath_cycle_no_value [OF this] show ?thesis by simp
qed

lemma getAllPaths_cycle_no_result: "getAllPaths cyclicRegistry = None"
proof -
  have "getPath (Some ''/x'') ''/x'' 0 cyclicRegistry = None"
    by (simp add: getPath_def getPath_cycle_no_result)
  then show ?thesis
    by (simp add: getAllPaths_def cyclicRegistry_def)
qed

text \<open>
  The claim as stated fails for the empty string: the only entry below has the non-null
  parent \<open>""\<close>, which matches no entry, and \<open>getAllPaths\<close> returns normally.
\<close>

theorem missing_parent_counterexample:
  "emptyParentRegistry ! 0 \<in> set emptyParentRegistry \<and>
   parent (emptyParentRegistry ! 0) = Some [] \<and>
   findParent emptyParentRegistry [] = None \<and>
   reachesMissing emptyParentRegistry (parent (emptyParentRegistry ! 0)) \<and>
   getAllPaths emptyParentRegistry = Some (Inr [\<lparr>absolutePath = ''/a'', access = 1\<rparr>])"
proof (intro conjI)
  show "emptyParentRegistry ! 0 \<in> set emptyParentRegistry"
    by (simp add: emptyParentRegistry_def)
  show "parent (emptyParentRegistry ! 0) = Some []"
    by (simp add: emptyParentRegistry_def)
  show "findParent emptyParentRegistry [] = None"
    by (simp add: emptyParentRegistry_def findParent_def)
  show "reachesMissing emptyParentRegistry (parent (emptyParentRegistry ! 0))"
    by (simp add: emptyParentRegistry_def reachesMissing.missing findParent_def)
  show "getAllPaths emptyParentRegistry = Some (Inr [\<lparr>absolutePath = ''/a'', access = 1\<rparr>])"
    by code_simp
qed

section \<open>Two calls on the same registry\<close>

lemma lookup_append: "lookup h a = Some v \<Longrightarrow> lookup (h @ ext) a = Some v"
  by (auto simp: lookup_def nth_append split: if_splits)

lemma readRoute_append: "readRoute h a = Some r \<Longrightarrow> readRoute (h @ ext) a = Some r"
  by (auto simp: readRoute_def lookup_append split: option.splits obj.splits)

lemma readResolved_append: "readResolved h a = Some r \<Longrightarrow> readResolved (h @ ext) a = Some r"
  by (auto simp: readResolved_def lookup_append split: option.splits obj.splits)

lemma readArray_append: "readArray h a = Some as \<Longrightarrow> readArray (h @ ext) a = Some as"
  by (auto simp: readArray_def lookup_append split: option.splits obj.splits)

lemma allSome_map_mono:
  "allSome (map f as) = Some ys \<Longrightarrow> (\<And>a y. f a = Some y \<Longrightarrow> g a = Some y) \<Longrightarrow>
   allSome (map g as) = Some ys"
proof (induction as arbitrary: ys)
  case Nil
  then show ?case by simp
next
  case (Cons a as)
  from Cons.prems(1) obtain y where y: "f a = Some y"
    by (cases "f a") auto
  with Cons.prems(1) obtain zs where zs: "allSome (map f as) = Some zs" "ys = y # zs"
    by (auto split: option.splits)
  from Cons.IH [OF zs(1) Cons.prems(2)] have "allSome (map g as) = Some zs" by simp
  moreover from y have "g a = Some y" by (rule Cons.prems(2))
  ultimately show ?case using zs(2) by simp
qed

text \<open>What a call adds to the store leaves the registry and earlier results as they are.\<close>

lemma readRegistry_append:
  "readRegistry h ra = Some registry \<Longrightarrow> readRegistry (h @ ext) ra = Some registry"
  unfolding readRegistry_def
  by (auto split: option.splits simp: readArray_append
      intro: allSome_map_mono [where f = "readRoute h"] readRoute_append)

lemma readResolvedArray_append:
  "readResolvedArray h a = Some out \<Longrightarrow> readResolvedArray (h @ ext) a = Some out"
  unfolding readResolvedArray_def
  by (auto split: option.splits simp: readArray_append
      intro: allSome_map_mono [where f = "readResolved h"] readResolved_append)

lemma upt_shift: "[m ..< Suc (m + n)] = m # [Suc m ..< Suc (m + n)]"
  by (rule upt_conv_Cons) simp

text \<open>
  The functions on a store do what the functions on the registry do, and add the objects
  created to the end of the store.
\<close>

lemma getPath_loop_st_of_loop:
  assumes "getPath_loop registry a c cur = Some y"
  shows "readRegistry h ra = Some registry \<longrightarrow> getPath_loop_st h ra a c cur = Some (stored h y)"
proof (rule getPath_loop.raw_induct
    [where P = "\<lambda>registry a c cur y.
        readRegistry h ra = Some registry \<longrightarrow> getPath_loop_st h ra a c cur = Some (stored h y)",
      OF _ assms])
  fix f registry a c cur y
  assume IH: "\<And>registry a c cur y. f registry a c cur = Some y \<Longrightarrow>
      readRegistry h ra = Some registry \<longrightarrow> getPath_loop_st h ra a c cur = Some (stored h y)"
    and body: "(if truthy cur then
        (case findParent registry (the cur) of
           None \<Rightarrow> Some (Inl TypeError)
         | Some p \<Rightarrow> f registry (createRoute (path p) a)
               (max c (RouteDefinition.level p)) (parent p))
      else Some (Inr \<lparr>absolutePath = a, access = c\<rparr>)) = Some y"
  show "readRegistry h ra = Some registry \<longrightarrow> getPath_loop_st h ra a c cur = Some (stored h y)"
  proof
    assume r: "readRegistry h ra = Some registry"
    show "getPath_loop_st h ra a c cur = Some (stored h y)"
    proof (cases "truthy cur")
      case False
      with body have "y = Inr \<lparr>absolutePath = a, access = c\<rparr>" by simp
      with False show ?thesis
        by (subst getPath_loop_st.simps) (simp add: alloc_def)
    next
      case True
      show ?thesis
      proof (cases "findParent registry (the cur)")
        case None
        with body True have "y = Inl TypeError" by simp
        with True None r show ?thesis
          by (subst getPath_loop_st.simps) simp
      next
        case (Some p)
        with body True have "f registry (createRoute (path p) a)
            (max c (RouteDefinition.level p)) (parent p) = Some y"
          by simp
        from IH [OF this] r have "getPath_loop_st h ra (createRoute (path p) a)
            (max c (RouteDefinition.level p)) (parent p) = Some (stored h y)"
          by simp
        with True Some r show ?thesis
          by (subst getPath_loop_st.simps) simp
      qed
    qed
  qed
qed

lemma getPath_loop_of_loop_st:
  assumes "getPath_loop_st h ra a c cur = Some z"
  shows "readRegistry h ra = Some registry \<longrightarrow>
     (\<exists>y. getPath_loop registry a c cur = Some y)"
proof (rule getPath_loop_st.raw_induct
    [where P = "\<lambda>h ra a c cur z.
        readRegistry h ra = Some registry \<longrightarrow> (\<exists>y. getPath_loop registry a c cur = Some y)",
      OF _ assms])
  fix f h ra a c cur z
  assume IH: "\<And>h ra a c cur z. f h ra a c cur = Some z \<Longrightarrow>
      readRegistry h ra = Some registry \<longrightarrow> (\<exists>y. getPath_loop registry a c cur = Some y)"
    and body: "(if truthy cur then
        (case readRegistry h ra of
           None \<Rightarrow> Some (Inl TypeError, h)
         | Some registry \<Rightarrow>
             (case findParent registry (the cur) of
                None \<Rightarrow> Some (Inl TypeError, h)
              | Some p \<Rightarrow> f h ra (createRoute (path p) a)
                    (max c (RouteDefinition.level p)) (parent p)))
      else Some (Inr (fst (alloc h (ResolvedObj \<lparr>absolutePath = a, access = c\<rparr>))),
                 snd (alloc h (ResolvedObj \<lparr>absolutePath = a, access = c\<rparr>)))) = Some z"
  show "readRegistry h ra = Some registry \<longrightarrow> (\<exists>y. getPath_loop registry a c cur = Some y)"
  proof
    assume r: "readRegistry h ra = Some registry"
    show "\<exists>y. getPath_loop registry a c cur = Some y"
    proof (cases "truthy cur")
      case False
      then show ?thesis by (subst getPath_loop.simps) simp
    next
      case True
      show ?thesis
      proof (cases "findParent registry (the cur)")
        case None
        with True show ?thesis by (subst getPath_loop.simps) simp
      next
        case (Some p)
        with body True r have "f h ra (createRoute (path p) a)
            (max c (RouteDefinition.level p)) (parent p) = Some z"
          by simp
        from IH [OF this] r obtain y where "getPath_loop registry (createRoute (path p) a)
            (max c (RouteDefinition.level p)) (parent p) = Some y"
          by blast
        with True Some show ?thesis by (subst getPath_loop.simps) simp
      qed
    qed
  qed
qed

lemma getPath_st_registry:
  assumes "readRegistry h ra = Some registry"
  shows "getPath_st h par p lvl ra =
     (case getPath par p lvl registry of
        None \<Rightarrow> None
      | Some (Inl e) \<Rightarrow> Some (Inl e, h)
      | Some (Inr r) \<Rightarrow> Some (Inr (length h), h @ [ResolvedObj r]))"
proof (cases "getPath_loop registry p lvl par")
  case None
  have "getPath_loop_st h ra p lvl par = None"
  proof (cases "getPath_loop_st h ra p lvl par")
    case (Some z)
    from getPath_loop_of_loop_st [OF this, where registry = registry] assms None
    show ?thesis by simp
  qed simp
  with None show ?thesis by (simp add: getPath_st_def getPath_def)
next
  case (Some y)
  from getPath_loop_st_of_loop [OF this] assms
  have "getPath_loop_st h ra p lvl par = Some (stored h y)" by simp
  with Some show ?thesis by (cases y) (simp_all add: getPath_st_def getPath_def)
qed

lemma mapFrom_st_registry:
  assumes "readRegistry h ra = Some registry" and "i + k = length registry"
  shows "(case map_js (\<lambda>r. getPath (parent r) (path r) (RouteDefinition.level r) registry)
            (drop i registry) of
          None \<Rightarrow> mapFrom_st h ra i k = None
        | Some (Inl e) \<Rightarrow> (\<exists>ext. mapFrom_st h ra i k = Some (Inl e, h @ ext))
        | Some (Inr ys) \<Rightarrow>
            mapFrom_st h ra i k =
              Some (Inr [length h ..< length h + length ys], h @ map ResolvedObj ys))"
  using assms
proof (induction k arbitrary: h i)
  case 0
  then show ?case by simp
next
  case (Suc k)
  let ?f = "\<lambda>r. getPath (parent r) (path r) (RouteDefinition.level r) registry"
  from Suc.prems(2) have i: "i < length registry" by simp
  then have d: "drop i registry = registry ! i # drop (Suc i) registry"
    by (simp add: Cons_nth_drop_Suc)
  note g = getPath_st_registry [OF Suc.prems(1), of "parent (registry ! i)"
      "path (registry ! i)" "RouteDefinition.level (registry ! i)"]
  show ?case
  proof (cases "?f (registry ! i)")
    case None
    with g i Suc.prems(1) d show ?thesis by simp
  next
    case (Some v)
    show ?thesis
    proof (cases v)
      case (Inl e)
      with Some g i Suc.prems(1) d show ?thesis by simp
    next
      case (Inr y)
      let ?h = "h @ [ResolvedObj y]"
      from Suc.prems(1) have r: "readRegistry ?h ra = Some registry"
        by (rule readRegistry_append)
      from Suc.prems(2) have "Suc i + k = length registry" by simp
      note IH = Suc.IH [OF r this]
      from Some Inr g i Suc.prems(1)
      have step: "mapFrom_st h ra i (Suc k) =
          (case mapFrom_st ?h ra (Suc i) k of
             None \<Rightarrow> None
           | Some (Inl e, h'') \<Rightarrow> Some (Inl e, h'')
           | Some (Inr as, h'') \<Rightarrow> Some (Inr (length h # as), h''))"
        by simp
      show ?thesis
      proof (cases "map_js ?f (drop (Suc i) registry)")
        case None
        with IH step Some Inr d show ?thesis by simp
      next
        case rest: (Some w)
        show ?thesis
        proof (cases w)
          case (Inl e)
          with rest IH obtain ext where "mapFrom_st ?h ra (Suc i) k = Some (Inl e, ?h @ ext)"
            by auto
          with step have "mapFrom_st h ra i (Suc k) = Some (Inl e, h @ ([ResolvedObj y] @ ext))"
            by simp
          with rest Inl Some Inr d show ?thesis by auto
        next
          case (Inr ys)
          with rest IH have "mapFrom_st ?h ra (Suc i) k =
              Some (Inr [length ?h ..< length ?h + length ys], ?h @ map ResolvedObj ys)"
            by simp
          with step have "mapFrom_st h ra i (Suc k) =
              Some (Inr (length h # [Suc (length h) ..< Suc (length h) + length ys]),
                h @ map ResolvedObj (y # ys))"
            by simp
          moreover have "length h # [Suc (length h) ..< Suc (length h) + length ys] =
              [length h ..< length h + length (y # ys)]"
            by (simp add: upt_shift del: upt_Suc)
          ultimately show ?thesis using rest Inr Some \<open>v = Inr y\<close> d by (simp del: upt_Suc)
        qed
      qed
    qed
  qed
qed

lemma getAllPaths_st_registry:
  assumes "readRegistry h ra = Some registry"
  shows "(case getAllPaths registry of
          None \<Rightarrow> getAllPaths_st h ra = None
        | Some (Inl e) \<Rightarrow> (\<exists>ext. getAllPaths_st h ra = Some (Inl e, h @ ext))
        | Some (Inr out) \<Rightarrow>
            getAllPaths_st h ra =
              Some (Inr (length h + length out),
                h @ map ResolvedObj out @ [ArrayObj [length h ..< length h + length out]]))"
proof -
  from mapFrom_st_registry [OF assms, of 0 "length registry"]
  show ?thesis
    using assms
    by (auto simp: getAllPaths_def getAllPaths_st_def alloc_def split: option.splits sum.splits)
qed

lemma allSome_upt:
  "\<forall>j < length out. g (m + j) = Some (out ! j) \<Longrightarrow>
   allSome (map g [m ..< m + length out]) = Some out"
proof (induction out arbitrary: m)
  case Nil
  then show ?case by simp
next
  case (Cons y ys)
  from Cons.prems have 0: "g m = Some y" by force
  from Cons.prems have "\<forall>j < length ys. g (Suc m + j) = Some (ys ! j)" by force
  then have "allSome (map g [Suc m ..< Suc m + length ys]) = Some ys" by (rule Cons.IH)
  with 0 show ?case by (simp add: upt_shift del: upt_Suc)
qed

lemma readResolvedArray_result:
  "readResolvedArray
     (h @ map ResolvedObj out @ [ArrayObj [length h ..< length h + length out]])
     (length h + length out) = Some out"
proof -
  let ?H = "h @ map ResolvedObj out @ [ArrayObj [length h ..< length h + length out]]"
  have a: "readArray ?H (length h + length out) = Some [length h ..< length h + length out]"
    by (simp add: readArray_def lookup_def nth_append)
  have "\<forall>j < length out. readResolved ?H (length h + j) = Some (out ! j)"
    by (simp add: readResolved_def lookup_def nth_append)
  then have "allSome (map (readResolved ?H) [length h ..< length h + length out]) = Some out"
    by (rule allSome_upt)
  with a show ?thesis by (simp add: readResolvedArray_def)
qed

lemma readRegistry_scenario2Store: "readRegistry scenario2Store 3 = Some scenario2"
  by (simp add: readRegistry_def readArray_def readRoute_def lookup_def scenario2Store_def
      scenario2_def)

lemma getAllPaths_st_scenario2Store:
  "getAllPaths_st scenario2Store 3 = Some (Inr 7, scenario2Store1)"
  by code_simp

text \<open>
  Claim C7. \<open>getAllPaths\<close> is deterministic and calling it twice on the same registry
  gives deep-equal results. The module has no state of its own and calls nothing that
  depends on time or chance, so a call is a function of the store and the reference.
  A call that returns leaves the registry as it was; a second call on the store the
  first one left returns too, a new array (another reference) whose resolved routes are
  equal, one by one, to those of the first result, which are what \<open>getAllPaths\<close> gives on
  the registry; the first result is not changed by the second call. A call that raises
  leaves the registry as it was, and the second call raises the same error.
\<close>

theorem getAllPaths_twice:
  assumes "readRegistry h ra = Some registry"
  shows "(\<forall>a1 h1. getAllPaths_st h ra = Some (Inr a1, h1) \<longrightarrow>
            (\<exists>a2 h2 out. getAllPaths_st h1 ra = Some (Inr a2, h2) \<and> a2 \<noteq> a1 \<and>
               readRegistry h1 ra = Some registry \<and>
               readRegistry h2 ra = Some registry \<and>
               getAllPaths registry = Some (Inr out) \<and>
               readResolvedArray h1 a1 = Some out \<and>
               readResolvedArray h2 a1 = Some out \<and>
               readResolvedArray h2 a2 = Some out)) \<and>
         (\<forall>e h1. getAllPaths_st h ra = Some (Inl e, h1) \<longrightarrow>
            readRegistry h1 ra = Some registry \<and>
            getAllPaths registry = Some (Inl e) \<and>
            (\<exists>h2. getAllPaths_st h1 ra = Some (Inl e, h2)))"
proof (intro conjI allI impI)
  fix a1 h1
  assume call: "getAllPaths_st h ra = Some (Inr a1, h1)"
  note link = getAllPaths_st_registry [OF assms]
  from call link obtain out where out: "getAllPaths registry = Some (Inr out)"
    by (cases "getAllPaths registry") (auto split: sum.splits)
  let ?arr = "\<lambda>n. [ArrayObj [n ..< n + length out]]"
  from out link call have a1: "a1 = length h + length out"
    and h1: "h1 = h @ map ResolvedObj out @ ?arr (length h)"
    by simp_all
  from assms have r1: "readRegistry h1 ra = Some registry"
    unfolding h1 by (rule readRegistry_append)
  from getAllPaths_st_registry [OF r1] out
  have second: "getAllPaths_st h1 ra =
      Some (Inr (length h1 + length out), h1 @ map ResolvedObj out @ ?arr (length h1))"
    by simp
  let ?a2 = "length h1 + length out"
  let ?h2 = "h1 @ map ResolvedObj out @ ?arr (length h1)"
  have ne: "?a2 \<noteq> a1" by (simp add: a1 h1)
  from r1 have r2: "readRegistry ?h2 ra = Some registry"
    by (rule readRegistry_append)
  have o1: "readResolvedArray h1 a1 = Some out"
    unfolding a1 h1 by (rule readResolvedArray_result)
  then have o12: "readResolvedArray ?h2 a1 = Some out"
    by (rule readResolvedArray_append)
  have o2: "readResolvedArray ?h2 ?a2 = Some out"
    by (rule readResolvedArray_result)
  from second ne r1 r2 out o1 o12 o2
  show "\<exists>a2 h2 out. getAllPaths_st h1 ra = Some (Inr a2, h2) \<and> a2 \<noteq> a1 \<and>
               readRegistry h1 ra = Some registry \<and>
               readRegistry h2 ra = Some registry \<and>
               getAllPaths registry = Some (Inr out) \<and>
               readResolvedArray h1 a1 = Some out \<and>
               readResolvedArray h2 a1 = Some out \<and>
               readResolvedArray h2 a2 = Some out"
    by blast
next
  fix e h1
  assume call: "getAllPaths_st h ra = Some (Inl e, h1)"
  note link = getAllPaths_st_registry [OF assms]
  from call link have raised: "getAllPaths registry = Some (Inl e)"
    by (cases "getAllPaths registry") (auto split: sum.splits)
  with link call obtain ext where h1: "h1 = h @ ext" by auto
  from assms have r1: "readRegistry h1 ra = Some registry"
    unfolding h1 by (rule readRegistry_append)
  from getAllPaths_st_registry [OF r1] raised
  have "\<exists>ext. getAllPaths_st h1 ra = Some (Inl e, h1 @ ext)" by simp
  then have again: "\<exists>h2. getAllPaths_st h1 ra = Some (Inl e, h2)" by blast
  from r1 show "readRegistry h1 ra = Some registry" .
  from raised show "getAllPaths registry = Some (Inl e)" .
  from again show "\<exists>h2. getAllPaths_st h1 ra = Some (Inl e, h2)" .
qed

theorem getAllPaths_twice_witness:
  "readRegistry scenario2Store 3 = Some scenario2 \<and>
   getAllPaths_st scenario2Store 3 = Some (Inr 7, scenario2Store1) \<and>
   (\<exists>a2 h2. getAllPaths_st scenario2Store1 3 = Some (Inr a2, h2) \<and> a2 \<noteq> 7 \<and>
      readRegistry scenario2Store1 3 = Some scenario2 \<and>
      readResolvedArray scenario2Store1 7 = Some resolved2 \<and>
      readResolvedArray h2 7 = Some resolved2 \<and>
      readResolvedArray h2 a2 = Some resolved2)"
proof -
  from getAllPaths_twice [OF readRegistry_scenario2Store] getAllPaths_st_scenario2Store
  obtain a2 h2 out where "getAllPaths_st scenario2Store1 3 = Some (Inr a2, h2)" "a2 \<noteq> 7"
    "readRegistry scenario2Store1 3 = Some scenario2"
    "getAllPaths scenario2 = Some (Inr out)"
    "readResolvedArray scenario2Store1 7 = Some out"
    "readResolvedArray h2 7 = Some out"
    "readResolvedArray h2 a2 = Some out"
    by blast
  moreover from this getAllPaths_scenario2 have "out = resolved2" by simp
  ultimately show ?thesis
    using readRegistry_scenario2Store getAllPaths_st_scenario2Store by blast
qed

end
